theory Spec2Isabelle
  imports Main "HOL-Library.Word"
begin

section \<open>StaticString: a string with a maximum size known at compile time\<close>

text \<open>
  A shallow embedding of \<^verbatim>\<open>src/util/StaticString.hxx\<close>.

  The object holds one array \<^verbatim>\<open>the_data\<close> of \<^verbatim>\<open>max\<close> elements of type \<^verbatim>\<open>T\<close>
  (the base class \<^verbatim>\<open>BasicStringBuffer<T, max>\<close>); the template parameter \<^verbatim>\<open>max\<close> is the
  length of the list that models the array, and \<^verbatim>\<open>T\<close> is a machine word of any width.
  A pointer into the array (\<^verbatim>\<open>data() + l\<close>) is the array together with an offset.
  Reading or writing outside the array is undefined behaviour in C++; here it is the
  result \<open>Inl OutOfBounds\<close>. A failed \<^verbatim>\<open>assert\<close> is the result \<open>Inl AssertionFailed\<close>
  (the debug build).

  Sizes and offsets (\<^verbatim>\<open>size_t\<close>) are natural numbers. The subtractions of the source,
  \<^verbatim>\<open>capacity() - 1\<close> and \<^verbatim>\<open>capacity() - l\<close>, do not wrap around when \<^verbatim>\<open>max\<close> is at least 1
  and \<^verbatim>\<open>l\<close> is a length found inside the array; with \<^verbatim>\<open>max = 0\<close> the object cannot hold
  a terminator, every call that reads the length or writes is out of bounds, and the
  properties below are about \<^verbatim>\<open>max\<close> of at least 1. The result of the rendering
  (\<^verbatim>\<open>int\<close>) is an integer; renderings are taken to be short enough for \<^verbatim>\<open>int\<close>.
\<close>

type_synonym 'a buffer = "'a word list"

datatype fault = AssertionFailed | OutOfBounds

text \<open>
  Modelled from the spec: \<^verbatim>\<open>SENTINEL\<close>, \<^verbatim>\<open>capacity()\<close>, \<^verbatim>\<open>c_str()\<close> and \<^verbatim>\<open>data()\<close> are
  members of \<^verbatim>\<open>BasicStringBuffer\<close> (StringBuffer.hxx), which is not part of the sources at
  hand. The spec: the terminator is "the zero element"; the capacity is "the fixed maximum
  element count set at construction, including the reserved terminator slot"; the raw
  pointer gives "raw read/write access to the underlying array" from its first element.
\<close>

definition SENTINEL :: "'a::len word" where
  "SENTINEL = 0"

definition capacity :: "'a::len buffer \<Rightarrow> nat" where
  "capacity b = length b"

definition c_str :: "'a::len buffer \<Rightarrow> 'a word list" where
  "c_str b = b"

subsection \<open>Memory access\<close>

text \<open>One element written through a pointer: \<^verbatim>\<open>p[i] = v\<close>.\<close>

definition poke :: "'a list \<Rightarrow> nat \<Rightarrow> 'a \<Rightarrow> fault + 'a list" where
  "poke b i v = (if i < length b then Inr (b[i := v]) else Inl OutOfBounds)"

text \<open>A run of elements written from offset \<open>off\<close> on (\<^verbatim>\<open>std::copy\<close> to \<^verbatim>\<open>p + off\<close>).\<close>

definition poke_range :: "'a list \<Rightarrow> nat \<Rightarrow> 'a list \<Rightarrow> fault + 'a list" where
  "poke_range b off xs =
     (if off + length xs \<le> length b
      then Inr (take off b @ xs @ drop (off + length xs) b)
      else Inl OutOfBounds)"

subsection \<open>The string primitives the class is built on\<close>

text \<open>
  Modelled from the spec: \<^verbatim>\<open>StringLength\<close> (StringAPI.hxx) is not part of the sources at
  hand. The spec: "the count of elements preceding the first terminator; recomputed by scan
  whenever queried". A scan that leaves the array without meeting a terminator has read out
  of bounds.
\<close>

fun StringLength :: "'a::len word list \<Rightarrow> fault + nat" where
  "StringLength [] = Inl OutOfBounds"
| "StringLength (c # cs) =
     (if c = SENTINEL then Inr 0
      else (case StringLength cs of Inl e \<Rightarrow> Inl e | Inr n \<Rightarrow> Inr (Suc n)))"

text \<open>
  Modelled from the spec: \<^verbatim>\<open>CopyString(dest, dest_size, src)\<close> (StringUtil.hpp) is not part
  of the sources at hand. The spec: "replace content, truncating to capacity, terminator
  guaranteed": at most \<open>dest_size - 1\<close> elements of the view are copied and the terminator
  follows them.
\<close>

definition CopyString :: "'a::len buffer \<Rightarrow> nat \<Rightarrow> nat \<Rightarrow> 'a word list \<Rightarrow> fault + 'a buffer" where
  "CopyString b off dest_size src = poke_range b off (take (dest_size - 1) src @ [SENTINEL])"

text \<open>
  Modelled from the spec: \<^verbatim>\<open>IsASCII\<close> (CharUtil.hxx) is not part of the sources at hand.
  The spec: an element "with value \<ge> 128" is non-ASCII; the value is the unsigned one.
\<close>

definition IsASCII :: "'a::len word \<Rightarrow> bool" where
  "IsASCII ch = (unat ch < 128)"

text \<open>
  Modelled from the spec: the bounded \<^verbatim>\<open>CopyASCII(dest, dest_size, src, src_end)\<close>
  (ASCII.hxx) is not part of the sources at hand. The spec: "copies single-byte elements from
  source into the store, stopping at capacity - 1 elements or at the source's own terminator,
  whichever comes first". The elements kept are the ASCII ones, as for \<^verbatim>\<open>CleanASCII\<close>; on
  an ASCII source this is the plain bounded copy. The source elements are converted to the
  element type of the store. The result is the store and the end pointer (as an offset).
\<close>

definition CopyASCII_n ::
  "'a::len buffer \<Rightarrow> nat \<Rightarrow> nat \<Rightarrow> 'b::len word list \<Rightarrow> fault + ('a buffer \<times> nat)" where
  "CopyASCII_n b off dest_size src =
     (let xs = take dest_size (map ucast (filter IsASCII src))
      in case poke_range b off xs of
           Inl e \<Rightarrow> Inl e
         | Inr b' \<Rightarrow> Inr (b', off + length xs))"

text \<open>
  Modelled from the spec: the unbounded \<^verbatim>\<open>CopyASCII(dest, src)\<close> (ASCII.hxx) is not part of
  the sources at hand. The spec: "scans current content, drops every element with value
  \<ge> 128 (non-ASCII), shifts remaining elements left to stay contiguous, writes terminator at
  the new (possibly shorter) length". The source is a terminated string; the destination
  never runs ahead of the source, so reading from the state before the call is the same as
  reading while writing.
\<close>

definition CopyASCII :: "'a::len buffer \<Rightarrow> nat \<Rightarrow> 'a word list \<Rightarrow> fault + 'a buffer" where
  "CopyASCII b off src =
     (case StringLength src of
        Inl e \<Rightarrow> Inl e
      | Inr n \<Rightarrow> poke_range b off (filter IsASCII (take n src) @ [SENTINEL]))"

text \<open>
  The outcome of rendering a template with its arguments is decided by the C library; it is
  an input of the model: either the complete text the directives produce, or an internal
  error after some part of the text was produced.
\<close>

datatype 'e rendering = Rendered "'e list" | RenderError "'e list"

text \<open>
  Modelled from the spec: \<^verbatim>\<open>StringFormat(buffer, size, fmt, args...)\<close> (StringFormat.hpp)
  is not part of the sources at hand. The spec: the rendering is "bounded by capacity",
  "truncated if it would not fit, with truncation landing exactly at capacity - 1 elements
  (never one past)", and the terminator follows; the result is the length of the complete
  rendering, or negative on an internal error, where the store is left in "a defined but
  unspecified state that still satisfies all invariants": what was produced, bounded and
  terminated in the same way. With a size of 0 nothing is written.
\<close>

definition StringFormat ::
  "'a::len buffer \<Rightarrow> nat \<Rightarrow> nat \<Rightarrow> 'a word rendering \<Rightarrow> fault + ('a buffer \<times> int)" where
  "StringFormat b off size0 r =
     (case r of
        Rendered out \<Rightarrow>
          (if size0 = 0 then Inr (b, int (length out))
           else (case poke_range b off (take (size0 - 1) out @ [SENTINEL]) of
                   Inl e \<Rightarrow> Inl e
                 | Inr b' \<Rightarrow> Inr (b', int (length out))))
      | RenderError part \<Rightarrow>
          (if size0 = 0 then Inr (b, - 1)
           else (case poke_range b off (take (size0 - 1) part @ [SENTINEL]) of
                   Inl e \<Rightarrow> Inl e
                 | Inr b' \<Rightarrow> Inr (b', - 1))))"

text \<open>
  Modelled from the spec: \<^verbatim>\<open>StringIsEqual\<close> (StringAPI.hxx) is not part of the sources at
  hand. The spec: "content comparisons delegating to terminator-aware element-wise
  algorithms; always case-sensitive, encoding-agnostic (byte/element comparison)".
\<close>

fun StringIsEqual :: "'a::len word list \<Rightarrow> 'a word list \<Rightarrow> fault + bool" where
  "StringIsEqual [] ys = Inl OutOfBounds"
| "StringIsEqual (x # xs) [] = Inl OutOfBounds"
| "StringIsEqual (x # xs) (y # ys) =
     (if x \<noteq> y then Inr False
      else if x = SENTINEL then Inr True
      else StringIsEqual xs ys)"

subsection \<open>StaticStringBase\<close>

text \<open>
  Modelled from the spec: the storage and its default construction belong to
  \<^verbatim>\<open>BasicStringBuffer\<close> (StringBuffer.hxx), which is not part of the sources at hand;
  \<^verbatim>\<open>StaticStringBase() = default\<close> adds nothing to it. The spec: "a buffer is created empty
  (terminator at index 0)". The argument is the memory the object is built in.
\<close>

definition StaticStringBase_default :: "'a::len buffer \<Rightarrow> fault + 'a buffer" where
  "StaticStringBase_default raw = poke raw 0 SENTINEL"

definition length_buf :: "'a::len buffer \<Rightarrow> fault + nat" where
  "length_buf b = StringLength (c_str b)"

definition full :: "'a::len buffer \<Rightarrow> fault + bool" where
  "full b = (case length_buf b of Inl e \<Rightarrow> Inl e | Inr l \<Rightarrow> Inr (l \<ge> capacity b - 1))"

definition Truncate :: "'a::len buffer \<Rightarrow> nat \<Rightarrow> fault + 'a buffer" where
  "Truncate b new_length =
     (case length_buf b of
        Inl e \<Rightarrow> Inl e
      | Inr l \<Rightarrow> if new_length \<le> l then poke b new_length SENTINEL else Inl AssertionFailed)"

definition SetASCII :: "'a::len buffer \<Rightarrow> 'b::len word list \<Rightarrow> fault + 'a buffer" where
  "SetASCII b src =
     (case CopyASCII_n b 0 (capacity b - 1) src of
        Inl e \<Rightarrow> Inl e
      | Inr (b', end) \<Rightarrow> poke b' end SENTINEL)"

text \<open>
  \<^verbatim>\<open>SetASCII(src)\<close> for a terminated source: the range ends at the source's terminator. The
  argument is the memory from \<^verbatim>\<open>src\<close> on.
\<close>

definition SetASCII_z :: "'a::len buffer \<Rightarrow> 'b::len word list \<Rightarrow> fault + 'a buffer" where
  "SetASCII_z b src =
     (case StringLength src of
        Inl e \<Rightarrow> Inl e
      | Inr n \<Rightarrow> SetASCII b (take n src))"

definition CleanASCII :: "'a::len buffer \<Rightarrow> fault + 'a buffer" where
  "CleanASCII b = CopyASCII b 0 (c_str b)"

definition equals :: "'a::len buffer \<Rightarrow> 'a word list \<Rightarrow> fault + bool" where
  "equals b other = StringIsEqual (c_str b) other"

definition assign :: "'a::len buffer \<Rightarrow> 'a word list \<Rightarrow> fault + 'a buffer" where
  "assign b new_value = CopyString b 0 (capacity b) new_value"

definition StaticStringBase_view :: "'a::len buffer \<Rightarrow> 'a word list \<Rightarrow> fault + 'a buffer" where
  "StaticStringBase_view raw v = assign raw v"

definition append_buf :: "'a::len buffer \<Rightarrow> 'a word list \<Rightarrow> fault + 'a buffer" where
  "append_buf b new_value =
     (case length_buf b of
        Inl e \<Rightarrow> Inl e
      | Inr len \<Rightarrow> CopyString b len (capacity b - len) new_value)"

definition push_back :: "'a::len buffer \<Rightarrow> 'a word \<Rightarrow> fault + (bool \<times> 'a buffer)" where
  "push_back b ch =
     (case length_buf b of
        Inl e \<Rightarrow> Inl e
      | Inr l \<Rightarrow>
          if l \<ge> capacity b - 1 then Inr (False, b)
          else (case poke b l ch of
                  Inl e \<Rightarrow> Inl e
                | Inr b1 \<Rightarrow>
                    (case poke b1 (Suc l) SENTINEL of
                       Inl e \<Rightarrow> Inl e
                     | Inr b2 \<Rightarrow> Inr (True, b2))))"

text \<open>\<^verbatim>\<open>operator==\<close> against a buffer of any capacity: \<^verbatim>\<open>*this == other.c_str()\<close>.\<close>

definition operator_eq :: "'a::len buffer \<Rightarrow> 'a buffer \<Rightarrow> fault + bool" where
  "operator_eq b other = equals b (c_str other)"

definition operator_ne :: "'a::len buffer \<Rightarrow> 'a buffer \<Rightarrow> fault + bool" where
  "operator_ne b other =
     (case equals b (c_str other) of Inl e \<Rightarrow> Inl e | Inr r \<Rightarrow> Inr (\<not> r))"

definition operator_assign :: "'a::len buffer \<Rightarrow> 'a word list \<Rightarrow> fault + 'a buffer" where
  "operator_assign b new_value = assign b new_value"

definition operator_add_view :: "'a::len buffer \<Rightarrow> 'a word list \<Rightarrow> fault + 'a buffer" where
  "operator_add_view b new_value = append_buf b new_value"

text \<open>\<^verbatim>\<open>operator+=(value_type ch)\<close>: the result of \<^verbatim>\<open>push_back\<close> is dropped.\<close>

definition operator_add_ch :: "'a::len buffer \<Rightarrow> 'a word \<Rightarrow> fault + 'a buffer" where
  "operator_add_ch b ch =
     (case push_back b ch of Inl e \<Rightarrow> Inl e | Inr (ok, b') \<Rightarrow> Inr b')"

text \<open>
  \<^verbatim>\<open>Format\<close>: the result is the store and the elements the returned view
  \<^verbatim>\<open>{data(), length}\<close> shows.
\<close>

definition Format :: "'a::len buffer \<Rightarrow> 'a word rendering \<Rightarrow> fault + ('a buffer \<times> 'a word list)" where
  "Format b r =
     (case StringFormat b 0 (capacity b) r of
        Inl e \<Rightarrow> Inl e
      | Inr (b', s_length) \<Rightarrow>
          if s_length < 0 then Inr (b', [])
          else (let length0 = nat s_length;
                    length1 = (if length0 \<ge> capacity b then capacity b - 1 else length0)
                in Inr (b', take length1 b')))"

definition AppendFormat :: "'a::len buffer \<Rightarrow> 'a word rendering \<Rightarrow> fault + 'a buffer" where
  "AppendFormat b r =
     (case length_buf b of
        Inl e \<Rightarrow> Inl e
      | Inr l \<Rightarrow>
          (case StringFormat b l (capacity b - l) r of
             Inl e \<Rightarrow> Inl e
           | Inr (b', s_length) \<Rightarrow> Inr b'))"

subsection \<open>StaticString over wchar_t\<close>

text \<open>\<^verbatim>\<open>StaticString::CropIncompleteUTF8\<close> has an empty body.\<close>

definition CropIncompleteUTF8 :: "'a::len buffer \<Rightarrow> 'a buffer" where
  "CropIncompleteUTF8 b = b"

subsection \<open>Content and the invariant\<close>

text \<open>The content of a buffer: the elements before the first terminator.\<close>

definition content :: "'a::len buffer \<Rightarrow> 'a word list" where
  "content b = takeWhile (\<lambda>c. c \<noteq> SENTINEL) b"

text \<open>
  The invariant of the spec: the length is defined, at most \<open>capacity - 1\<close>, and the
  element at index length is the terminator.
\<close>

definition valid :: "'a::len buffer \<Rightarrow> bool" where
  "valid b =
     (case length_buf b of
        Inl e \<Rightarrow> False
      | Inr l \<Rightarrow> l \<le> capacity b - 1 \<and> l < length b \<and> b ! l = SENTINEL)"

subsection \<open>Sequences of calls\<close>

text \<open>
  The mutating operations of the public interface, with their arguments. A \<^verbatim>\<open>const char *\<close>
  source is a list of bytes, a source of the buffer's own element type (the overloads for
  \<^verbatim>\<open>wchar_t\<close>) a list of elements.
\<close>

datatype 'e op =
    OpAssign "'e list"
  | OpAppend "'e list"
  | OpPushBack 'e
  | OpTruncate nat
  | OpSetASCII "8 word list"
  | OpSetASCII_z "8 word list"
  | OpSetASCII_w "'e list"
  | OpSetASCII_wz "'e list"
  | OpCleanASCII
  | OpFormat "'e rendering"
  | OpAppendFormat "'e rendering"

fun apply_op :: "'a::len word op \<Rightarrow> 'a buffer \<Rightarrow> fault + 'a buffer" where
  "apply_op (OpAssign v) b = assign b v"
| "apply_op (OpAppend v) b = append_buf b v"
| "apply_op (OpPushBack ch) b =
     (case push_back b ch of Inl e \<Rightarrow> Inl e | Inr (ok, b') \<Rightarrow> Inr b')"
| "apply_op (OpTruncate n) b = Truncate b n"
| "apply_op (OpSetASCII src) b = SetASCII b src"
| "apply_op (OpSetASCII_z src) b = SetASCII_z b src"
| "apply_op (OpSetASCII_w src) b = SetASCII b src"
| "apply_op (OpSetASCII_wz src) b = SetASCII_z b src"
| "apply_op OpCleanASCII b = CleanASCII b"
| "apply_op (OpFormat r) b =
     (case Format b r of Inl e \<Rightarrow> Inl e | Inr (b', v) \<Rightarrow> Inr b')"
| "apply_op (OpAppendFormat r) b = AppendFormat b r"

fun run :: "'a::len word op list \<Rightarrow> 'a buffer \<Rightarrow> fault + 'a buffer" where
  "run [] b = Inr b"
| "run (x # xs) b = (case apply_op x b of Inl e \<Rightarrow> Inl e | Inr b' \<Rightarrow> run xs b')"

text \<open>
  What a call asks of its caller: \<^verbatim>\<open>Truncate\<close> asserts \<^verbatim>\<open>new_length <= length()\<close>, and a
  source given by its start alone is a terminated string.
\<close>

fun op_precondition :: "'a::len word op \<Rightarrow> 'a buffer \<Rightarrow> bool" where
  "op_precondition (OpTruncate n) b =
     (case length_buf b of Inl e \<Rightarrow> False | Inr l \<Rightarrow> n \<le> l)"
| "op_precondition (OpSetASCII_z src) b = (SENTINEL \<in> set src)"
| "op_precondition (OpSetASCII_wz src) b = (SENTINEL \<in> set src)"
| "op_precondition x b = True"

text \<open>
  The callers' obligations along a sequence of calls, each checked in the state its call
  starts from. Nothing is asked of a call's outcome.
\<close>

fun preconditions_hold :: "'a::len word op list \<Rightarrow> 'a buffer \<Rightarrow> bool" where
  "preconditions_hold [] b = True"
| "preconditions_hold (x # xs) b =
     (op_precondition x b \<and>
      (case apply_op x b of Inl e \<Rightarrow> True | Inr b' \<Rightarrow> preconditions_hold xs b'))"

section \<open>Properties\<close>

subsection \<open>Length, content and the terminator\<close>

lemma StringLength_eq:
  "StringLength b =
     (if SENTINEL \<in> set b then Inr (length (takeWhile (\<lambda>c. c \<noteq> SENTINEL) b))
      else Inl OutOfBounds)"
  by (induction b) auto

lemma StringLength_Inr_iff:
  "StringLength b = Inr l \<longleftrightarrow>
     l < length b \<and> b ! l = SENTINEL \<and> (\<forall>i<l. b ! i \<noteq> SENTINEL)"
proof (induction b arbitrary: l)
  case Nil
  then show ?case by simp
next
  case (Cons c cs)
  show ?case
  proof (cases l)
    case 0
    then show ?thesis by (auto split: sum.splits)
  next
    case (Suc k)
    have "(\<forall>i<Suc k. (c # cs) ! i \<noteq> SENTINEL) \<longleftrightarrow>
          c \<noteq> SENTINEL \<and> (\<forall>i<k. cs ! i \<noteq> SENTINEL)"
      by (auto simp: less_Suc_eq_0_disj)
    with Suc Cons.IH [of k] show ?thesis
      by (auto split: sum.splits)
  qed
qed

lemma length_content_less: "SENTINEL \<in> set b \<Longrightarrow> length (content b) < length b"
  unfolding content_def by (induction b) auto

lemma nth_length_content: "SENTINEL \<in> set b \<Longrightarrow> b ! length (content b) = SENTINEL"
  unfolding content_def by (induction b) auto

lemma valid_iff: "valid b \<longleftrightarrow> SENTINEL \<in> set b"
proof
  assume "valid b"
  then obtain l where "StringLength b = Inr l"
    by (auto simp: valid_def length_buf_def c_str_def split: sum.splits)
  then show "SENTINEL \<in> set b"
    by (simp add: StringLength_eq split: if_splits)
next
  assume z: "SENTINEL \<in> set b"
  have "StringLength b = Inr (length (content b))"
    using z by (simp add: StringLength_eq content_def)
  moreover have "length (content b) \<le> length b - 1"
    using length_content_less [OF z] by simp
  ultimately show "valid b"
    using length_content_less [OF z] nth_length_content [OF z]
    by (simp add: valid_def length_buf_def c_str_def capacity_def)
qed

lemma length_buf_content: "length_buf b = Inr l \<Longrightarrow> content b = take l b"
proof -
  assume "length_buf b = Inr l"
  then have "l = length (content b)"
    by (simp add: length_buf_def c_str_def content_def StringLength_eq split: if_splits)
  then show ?thesis
    unfolding content_def by (simp only: takeWhile_eq_take [symmetric])
qed

lemma valid_length_buf: "valid b \<Longrightarrow> length_buf b = Inr (length (content b))"
  by (simp add: valid_iff length_buf_def c_str_def StringLength_eq content_def)

subsection \<open>Truncate\<close>

text \<open>
  C6: for every buffer and every \<open>new_length\<close> that is at most the current length,
  \<open>Truncate\<close> writes the terminator at index \<open>new_length\<close> and changes nothing else, and
  afterwards the length is \<open>new_length\<close>.
\<close>

theorem Truncate_length:
  assumes "length_buf b = Inr l" and "new_length \<le> l"
  shows "Truncate b new_length = Inr (b[new_length := SENTINEL]) \<and>
         (b[new_length := SENTINEL]) ! new_length = SENTINEL \<and>
         length_buf (b[new_length := SENTINEL]) = Inr new_length"
proof -
  from assms(1) have l: "l < length b" and nz: "\<forall>i<l. b ! i \<noteq> SENTINEL"
    by (simp_all add: length_buf_def c_str_def StringLength_Inr_iff)
  from l assms(2) have n: "new_length < length b" by simp
  have "length_buf (b[new_length := SENTINEL]) = Inr new_length"
    unfolding length_buf_def c_str_def StringLength_Inr_iff
    using n nz assms(2) by simp
  with n assms show ?thesis
    by (simp add: Truncate_def poke_def)
qed

theorem Truncate_length_witness:
  "length_buf [0x61, 0x62, 0x63, 0 :: 8 word] = Inr 3 \<and> (1 :: nat) \<le> 3 \<and>
   Truncate [0x61, 0x62, 0x63, 0 :: 8 word] 1 = Inr [0x61, 0, 0x63, 0] \<and>
   length_buf [0x61, 0, 0x63, 0 :: 8 word] = Inr 1"
proof -
  have h: "length_buf [0x61, 0x62, 0x63, 0 :: 8 word] = Inr 3"
    by (simp add: length_buf_def c_str_def SENTINEL_def)
  have n: "(1 :: nat) \<le> 3" by simp
  show ?thesis
    using h Truncate_length [OF h n] by (simp add: SENTINEL_def)
qed

subsection \<open>push_back\<close>

text \<open>
  C3: for every buffer that satisfies the invariant and every element \<open>ch\<close>, with \<open>l\<close> the
  length before the call: when \<open>l < capacity - 1\<close>, \<open>push_back\<close> returns true and the store
  differs only by \<open>ch\<close> at index \<open>l\<close> and the terminator at index \<open>l + 1\<close>, so the first
  \<open>l + 1\<close> elements are the old content followed by \<open>ch\<close> (and the length is \<open>l + 1\<close> when
  \<open>ch\<close> is not itself the terminator); when \<open>l = capacity - 1\<close>, it returns false and the
  store is the same, for every element, so a repeated call does the same again. No other
  case exists.
\<close>

theorem push_back_spec:
  assumes "valid b"
  shows "\<exists>l. length_buf b = Inr l \<and> l \<le> capacity b - 1 \<and>
     (l < capacity b - 1 \<longrightarrow>
        push_back b ch = Inr (True, b[l := ch, Suc l := SENTINEL]) \<and>
        take (Suc l) (b[l := ch, Suc l := SENTINEL]) = content b @ [ch] \<and>
        (b[l := ch, Suc l := SENTINEL]) ! Suc l = SENTINEL \<and>
        (ch \<noteq> SENTINEL \<longrightarrow> length_buf (b[l := ch, Suc l := SENTINEL]) = Inr (Suc l))) \<and>
     (l = capacity b - 1 \<longrightarrow> (\<forall>c. push_back b c = Inr (False, b)))"
proof -
  from assms obtain l where l: "length_buf b = Inr l" "l \<le> capacity b - 1" "l < length b"
    by (auto simp: valid_def split: sum.splits)
  have c: "content b = take l b" using l(1) by (rule length_buf_content)
  from l(1) have nz: "\<forall>i<l. b ! i \<noteq> SENTINEL"
    by (simp add: length_buf_def c_str_def StringLength_Inr_iff)
  have full: "\<forall>c. push_back b c = Inr (False, b)" if "l = capacity b - 1"
    using that l by (simp add: push_back_def)
  have ok: "push_back b ch = Inr (True, b[l := ch, Suc l := SENTINEL])"
    and tk: "take (Suc l) (b[l := ch, Suc l := SENTINEL]) = content b @ [ch]"
    and tm: "(b[l := ch, Suc l := SENTINEL]) ! Suc l = SENTINEL"
    and ln: "ch \<noteq> SENTINEL \<longrightarrow> length_buf (b[l := ch, Suc l := SENTINEL]) = Inr (Suc l)"
    if lt: "l < capacity b - 1"
  proof -
    from lt have sl: "Suc l < length b" by (simp add: capacity_def)
    show "push_back b ch = Inr (True, b[l := ch, Suc l := SENTINEL])"
      using l lt sl by (simp add: push_back_def poke_def)
    show "take (Suc l) (b[l := ch, Suc l := SENTINEL]) = content b @ [ch]"
      using sl c by (simp add: take_Suc_conv_app_nth)
    show "(b[l := ch, Suc l := SENTINEL]) ! Suc l = SENTINEL"
      using sl by simp
    show "ch \<noteq> SENTINEL \<longrightarrow> length_buf (b[l := ch, Suc l := SENTINEL]) = Inr (Suc l)"
      unfolding length_buf_def c_str_def StringLength_Inr_iff
      using sl nz by (auto simp: less_Suc_eq nth_list_update)
  qed
  from l full ok tk tm ln show ?thesis by blast
qed

theorem push_back_spec_witness:
  "valid [0x61, 0, 0x7A :: 8 word] \<and> valid [0x61, 0x62, 0 :: 8 word] \<and>
   push_back [0x61, 0, 0x7A :: 8 word] 0x62 = Inr (True, [0x61, 0x62, 0]) \<and>
   push_back [0x61, 0x62, 0 :: 8 word] 0x63 = Inr (False, [0x61, 0x62, 0])"
proof -
  have h1: "valid [0x61, 0, 0x7A :: 8 word]"
    by (simp add: valid_def length_buf_def c_str_def capacity_def SENTINEL_def)
  have h2: "valid [0x61, 0x62, 0 :: 8 word]"
    by (simp add: valid_def length_buf_def c_str_def capacity_def SENTINEL_def)
  have l1: "length_buf [0x61, 0, 0x7A :: 8 word] = Inr 1"
    by (simp add: length_buf_def c_str_def SENTINEL_def)
  have l2: "length_buf [0x61, 0x62, 0 :: 8 word] = Inr 2"
    by (simp add: length_buf_def c_str_def SENTINEL_def)
  from push_back_spec [OF h1, of "0x62"] l1
  have "push_back [0x61, 0, 0x7A :: 8 word] 0x62 = Inr (True, [0x61, 0x62, 0])"
    by (simp add: capacity_def SENTINEL_def)
  moreover from push_back_spec [OF h2, of "0x63"] l2
  have "push_back [0x61, 0x62, 0 :: 8 word] 0x63 = Inr (False, [0x61, 0x62, 0])"
    by (simp add: capacity_def)
  ultimately show ?thesis using h1 h2 by simp
qed

subsection \<open>operator+= with one element\<close>

text \<open>
  C10: for every full buffer (its length is \<open>capacity - 1\<close>) and every element \<open>ch\<close>,
  \<open>push_back\<close> reports failure, and \<open>operator+=\<close> gives back the buffer with the store as
  it was; its result carries the buffer only, so nothing tells the caller that the element
  was rejected.
\<close>

theorem operator_add_ch_full:
  assumes "length_buf b = Inr (capacity b - 1)"
  shows "push_back b ch = Inr (False, b) \<and> operator_add_ch b ch = Inr b"
  using assms by (simp add: operator_add_ch_def push_back_def)

theorem operator_add_ch_full_witness:
  "length_buf [0x61, 0x62, 0 :: 8 word] = Inr (capacity [0x61, 0x62, 0 :: 8 word] - 1) \<and>
   push_back [0x61, 0x62, 0 :: 8 word] 0x63 = Inr (False, [0x61, 0x62, 0]) \<and>
   operator_add_ch [0x61, 0x62, 0 :: 8 word] 0x63 = Inr [0x61, 0x62, 0]"
proof -
  have h: "length_buf [0x61, 0x62, 0 :: 8 word] = Inr (capacity [0x61, 0x62, 0 :: 8 word] - 1)"
    by (simp add: length_buf_def c_str_def capacity_def SENTINEL_def)
  show ?thesis
    using h operator_add_ch_full [OF h, of "0x63"] by simp
qed

subsection \<open>Construction\<close>

text \<open>
  C9: a default-constructed buffer (of a capacity of at least one element) is empty: the
  terminator is at index 0 and the length is 0.
\<close>

theorem default_constructed_empty:
  assumes "0 < capacity raw"
  shows "\<exists>b. StaticStringBase_default raw = Inr b \<and> capacity b = capacity raw \<and>
             b ! 0 = SENTINEL \<and> length_buf b = Inr 0"
  using assms
  by (cases raw)
    (simp_all add: StaticStringBase_default_def poke_def capacity_def length_buf_def c_str_def)

theorem default_constructed_empty_witness:
  "0 < capacity [0x55, 0xAA, 0x55 :: 8 word] \<and>
   (\<exists>b. StaticStringBase_default [0x55, 0xAA, 0x55 :: 8 word] = Inr b \<and>
        b ! 0 = SENTINEL \<and> length_buf b = Inr 0)"
proof -
  have h: "0 < capacity [0x55, 0xAA, 0x55 :: 8 word]"
    by (simp add: capacity_def)
  show ?thesis
    using h default_constructed_empty [OF h] by blast
qed

subsection \<open>CropIncompleteUTF8 of the wide string\<close>

text \<open>
  C7: for the string over \<^verbatim>\<open>wchar_t\<close>, \<open>CropIncompleteUTF8\<close> leaves every element of the
  store as it is, and with it the content and the length.
\<close>

theorem CropIncompleteUTF8_noop:
  "CropIncompleteUTF8 b = b \<and> content (CropIncompleteUTF8 b) = content b \<and>
   length_buf (CropIncompleteUTF8 b) = length_buf b"
  by (simp add: CropIncompleteUTF8_def)


subsection \<open>Comparison\<close>

lemma StringIsEqual_content:
  "SENTINEL \<in> set xs \<Longrightarrow> SENTINEL \<in> set ys \<Longrightarrow>
   StringIsEqual xs ys =
     Inr (takeWhile (\<lambda>c. c \<noteq> SENTINEL) xs = takeWhile (\<lambda>c. c \<noteq> SENTINEL) ys)"
  by (induction xs ys rule: StringIsEqual.induct) auto

text \<open>
  C5: for every two buffers of the same element type that satisfy the invariant, whatever
  their capacities, \<open>operator==\<close> is true exactly when the contents (the elements before
  the terminator) are the same.
\<close>

theorem operator_eq_content:
  assumes "valid a" and "valid b"
  shows "operator_eq a b = Inr (content a = content b)"
  using assms
  by (simp add: valid_iff operator_eq_def equals_def c_str_def content_def StringIsEqual_content)

theorem operator_eq_content_witness:
  "valid [0x61, 0x62, 0x63, 0, 0x11, 0x22, 0x33, 0x44 :: 8 word] \<and>
   valid [0x61, 0x62, 0x63, 0, 0, 0, 0, 0, 0, 0, 0, 0, 0, 0, 0, 0 :: 8 word] \<and>
   operator_eq [0x61, 0x62, 0x63, 0, 0x11, 0x22, 0x33, 0x44 :: 8 word]
               [0x61, 0x62, 0x63, 0, 0, 0, 0, 0, 0, 0, 0, 0, 0, 0, 0, 0] = Inr True"
proof -
  have h1: "valid [0x61, 0x62, 0x63, 0, 0x11, 0x22, 0x33, 0x44 :: 8 word]"
    by (simp add: valid_iff SENTINEL_def)
  have h2: "valid [0x61, 0x62, 0x63, 0, 0, 0, 0, 0, 0, 0, 0, 0, 0, 0, 0, 0 :: 8 word]"
    by (simp add: valid_iff SENTINEL_def)
  show ?thesis
    using h1 h2 operator_eq_content [OF h1 h2] by (simp add: content_def SENTINEL_def)
qed

subsection \<open>CleanASCII\<close>

lemma content_nonzero: "SENTINEL \<notin> set (content b)"
  unfolding content_def using set_takeWhileD by fastforce

lemma content_append_terminated:
  "SENTINEL \<notin> set xs \<Longrightarrow> content (xs @ SENTINEL # ys) = xs"
  unfolding content_def by (induction xs) auto

lemma take_content: "take (length (content b)) b = content b"
  unfolding content_def by (simp only: takeWhile_eq_take [symmetric])

lemma valid_decompose:
  assumes "valid b"
  shows "b = content b @ SENTINEL # drop (Suc (length (content b))) b"
proof -
  from assms have z: "SENTINEL \<in> set b" by (simp add: valid_iff)
  have "b = take (length (content b)) b @
            b ! length (content b) # drop (Suc (length (content b))) b"
    using length_content_less [OF z] by (simp add: id_take_nth_drop [symmetric])
  then show ?thesis
    using nth_length_content [OF z] by (simp add: take_content)
qed

lemma CleanASCII_result:
  assumes "valid b"
  shows "CleanASCII b =
     Inr (filter IsASCII (content b) @
          SENTINEL # drop (Suc (length (filter IsASCII (content b)))) b)"
proof -
  from assms have z: "SENTINEL \<in> set b" by (simp add: valid_iff)
  have l: "StringLength b = Inr (length (content b))"
    using z by (simp add: StringLength_eq content_def)
  have "length (filter IsASCII (content b)) \<le> length (content b)"
    by simp
  then have "Suc (length (filter IsASCII (content b))) \<le> length b"
    using length_content_less [OF z] by linarith
  then show ?thesis
    by (simp add: CleanASCII_def CopyASCII_def c_str_def l take_content poke_range_def)
qed

text \<open>
  C8: for every buffer that satisfies the invariant, \<open>CleanASCII\<close> leaves the elements of
  the content whose value is below 128, and applying it again changes nothing at all; when
  no element of the content has a value of 128 or more, the first application already
  leaves the whole store as it was.
\<close>

theorem CleanASCII_idempotent:
  assumes "valid b"
  shows "\<exists>b1. CleanASCII b = Inr b1 \<and> content b1 = filter IsASCII (content b) \<and>
              CleanASCII b1 = Inr b1 \<and>
              ((\<forall>c \<in> set (content b). unat c < 128) \<longrightarrow> b1 = b)"
proof -
  define f where "f = filter IsASCII (content b)"
  define b1 where "b1 = f @ SENTINEL # drop (Suc (length f)) b"
  have r: "CleanASCII b = Inr b1"
    using CleanASCII_result [OF assms] by (simp add: b1_def f_def)
  have nz: "SENTINEL \<notin> set f"
    using content_nonzero [of b] by (simp add: f_def)
  have c1: "content b1 = f"
    unfolding b1_def using nz by (rule content_append_terminated)
  have v1: "valid b1"
    by (simp add: valid_iff b1_def)
  have d: "drop (Suc (length f)) b1 = drop (Suc (length f)) b"
    by (simp add: b1_def)
  have "CleanASCII b1 =
        Inr (filter IsASCII f @ SENTINEL # drop (Suc (length (filter IsASCII f))) b1)"
    using CleanASCII_result [OF v1] by (simp add: c1)
  moreover have "filter IsASCII f = f" by (simp add: f_def)
  ultimately have r1: "CleanASCII b1 = Inr b1"
    using d by (simp add: b1_def)
  have same: "b1 = b" if "\<forall>c \<in> set (content b). unat c < 128"
  proof -
    from that have "f = content b"
      by (simp add: f_def IsASCII_def)
    then show ?thesis
      using valid_decompose [OF assms] by (simp add: b1_def)
  qed
  from r c1 r1 same show ?thesis
    by (auto simp: f_def)
qed

theorem CleanASCII_idempotent_witness:
  "valid [0x41, 0xC3, 0xA9, 0x42, 0, 0x7F :: 8 word] \<and>
   CleanASCII [0x41, 0xC3, 0xA9, 0x42, 0, 0x7F :: 8 word] = Inr [0x41, 0x42, 0, 0x42, 0, 0x7F] \<and>
   CleanASCII [0x41, 0x42, 0, 0x42, 0, 0x7F :: 8 word] = Inr [0x41, 0x42, 0, 0x42, 0, 0x7F]"
proof -
  have h: "valid [0x41, 0xC3, 0xA9, 0x42, 0, 0x7F :: 8 word]"
    by (simp add: valid_iff SENTINEL_def)
  have e: "CleanASCII [0x41, 0xC3, 0xA9, 0x42, 0, 0x7F :: 8 word] =
           Inr [0x41, 0x42, 0, 0x42, 0, 0x7F]"
    by (simp add: CleanASCII_def CopyASCII_def c_str_def poke_range_def IsASCII_def SENTINEL_def)
  from CleanASCII_idempotent [OF h] e
  have "CleanASCII [0x41, 0x42, 0, 0x42, 0, 0x7F :: 8 word] = Inr [0x41, 0x42, 0, 0x42, 0, 0x7F]"
    by auto
  with h e show ?thesis by simp
qed


subsection \<open>Formatted writes\<close>

lemma poke_range_terminated:
  assumes "off + length xs < length b"
  shows "poke_range b off (xs @ [SENTINEL]) =
           Inr (take off b @ xs @ SENTINEL # drop (Suc (off + length xs)) b)"
  using assms by (simp add: poke_range_def)

lemma StringFormat_Rendered:
  assumes "off < length b" and "off + size0 \<le> length b" and "0 < size0"
  shows "StringFormat b off size0 (Rendered out) =
           Inr (take off b @ take (size0 - 1) out @
                SENTINEL # drop (Suc (off + length (take (size0 - 1) out))) b,
                int (length out))"
proof -
  have "off + length (take (size0 - 1) out) < length b"
    using assms by simp
  from poke_range_terminated [OF this] assms(3) show ?thesis
    by (simp add: StringFormat_def)
qed

lemma StringFormat_RenderError:
  assumes "off < length b" and "off + size0 \<le> length b" and "0 < size0"
  shows "StringFormat b off size0 (RenderError part) =
           Inr (take off b @ take (size0 - 1) part @
                SENTINEL # drop (Suc (off + length (take (size0 - 1) part))) b,
                - 1)"
proof -
  have "off + length (take (size0 - 1) part) < length b"
    using assms by simp
  from poke_range_terminated [OF this] assms(3) show ?thesis
    by (simp add: StringFormat_def)
qed

lemma AppendFormat_Rendered:
  assumes "valid b"
  shows "AppendFormat b (Rendered out) =
     Inr (content b @ take (capacity b - length (content b) - 1) out @
          SENTINEL # drop (Suc (length (content b) +
                     length (take (capacity b - length (content b) - 1) out))) b)"
proof -
  from assms have z: "SENTINEL \<in> set b" by (simp add: valid_iff)
  have l: "length_buf b = Inr (length (content b))"
    using assms by (rule valid_length_buf)
  have lt: "length (content b) < length b"
    using z by (rule length_content_less)
  have "StringFormat b (length (content b)) (capacity b - length (content b)) (Rendered out) =
     Inr (take (length (content b)) b @ take (capacity b - length (content b) - 1) out @
          SENTINEL # drop (Suc (length (content b) +
                     length (take (capacity b - length (content b) - 1) out))) b,
          int (length out))"
    using lt by (intro StringFormat_Rendered) (simp_all add: capacity_def)
  then show ?thesis
    by (simp add: AppendFormat_def l take_content)
qed

text \<open>
  C2, as stated, fails. The rendering of \<^verbatim>\<open>"%d"\<close> with the argument 123 is the text
  \<^verbatim>\<open>123\<close>. On a buffer of capacity 4 that holds \<^verbatim>\<open>x\<close>, \<open>AppendFormat\<close> renders into the
  three elements from index 1 on: two digits and the terminator. The content is \<^verbatim>\<open>x12\<close>,
  not \<^verbatim>\<open>x1\<close>.
\<close>

theorem AppendFormat_boundary_counterexample:
  "capacity [0x78, 0, 0, 0 :: 8 word] = 4 \<and> content [0x78, 0, 0, 0 :: 8 word] = [0x78] \<and>
   AppendFormat [0x78, 0, 0, 0 :: 8 word] (Rendered [0x31, 0x32, 0x33]) =
     Inr [0x78, 0x31, 0x32, 0] \<and>
   content [0x78, 0x31, 0x32, 0 :: 8 word] \<noteq> [0x78, 0x31]"
  by (simp add: capacity_def content_def AppendFormat_def length_buf_def c_str_def
      StringFormat_def poke_range_def SENTINEL_def)

text \<open>
  C2, amended: for a buffer of capacity 4 whose content is \<^verbatim>\<open>x\<close>, \<open>AppendFormat\<close> with
  the rendering \<^verbatim>\<open>123\<close> leaves the content \<^verbatim>\<open>x12\<close>, of length 3: two digits are appended
  before the reserved terminator slot.
\<close>

theorem AppendFormat_boundary:
  assumes "capacity b = 4" and "content b = [0x78 :: 8 word]"
  shows "\<exists>b'. AppendFormat b (Rendered [0x31, 0x32, 0x33]) = Inr b' \<and>
              content b' = [0x78, 0x31, 0x32] \<and> length_buf b' = Inr 3 \<and>
              capacity b' = 4"
proof -
  have z: "SENTINEL \<in> set b"
  proof (rule ccontr)
    assume "SENTINEL \<notin> set b"
    then have "content b = b"
      by (auto simp: content_def)
    with assms show False by (simp add: capacity_def)
  qed
  then have v: "valid b" by (simp add: valid_iff)
  have len: "length b = 4" using assms(1) by (simp add: capacity_def)
  have r: "AppendFormat b (Rendered [0x31, 0x32, 0x33]) = Inr [0x78, 0x31, 0x32, 0]"
    using AppendFormat_Rendered [OF v, of "[0x31, 0x32, 0x33]"] assms len
    by (simp add: SENTINEL_def)
  moreover have "content [0x78, 0x31, 0x32, 0 :: 8 word] = [0x78, 0x31, 0x32]"
    by (simp add: content_def SENTINEL_def)
  moreover have "length_buf [0x78, 0x31, 0x32, 0 :: 8 word] = Inr 3"
    by (simp add: length_buf_def c_str_def SENTINEL_def)
  ultimately show ?thesis
    by (simp add: capacity_def)
qed

theorem AppendFormat_boundary_witness:
  "capacity [0x78, 0, 0x55, 0x66 :: 8 word] = 4 \<and>
   content [0x78, 0, 0x55, 0x66 :: 8 word] = [0x78] \<and>
   (\<exists>b'. AppendFormat [0x78, 0, 0x55, 0x66 :: 8 word] (Rendered [0x31, 0x32, 0x33]) = Inr b' \<and>
         content b' = [0x78, 0x31, 0x32])"
proof -
  have h1: "capacity [0x78, 0, 0x55, 0x66 :: 8 word] = 4"
    by (simp add: capacity_def)
  have h2: "content [0x78, 0, 0x55, 0x66 :: 8 word] = [0x78]"
    by (simp add: content_def SENTINEL_def)
  show ?thesis
    using h1 h2 AppendFormat_boundary [OF h1 h2] by blast
qed

text \<open>
  C4: for every buffer of a capacity of at least one element and every rendering,
  \<open>Format\<close> writes the rendered text from index 0 on, cut after \<open>capacity - 1\<close> elements and
  followed by the terminator, and returns a view of exactly these elements: the whole
  rendering when it is shorter than the capacity, and \<open>capacity - 1\<close> elements when it is
  not. When the rendering reports an error (a negative length), the view is empty.
\<close>

theorem Format_view:
  assumes "0 < capacity b"
  shows "(\<exists>b' v. Format b (Rendered out) = Inr (b', v) \<and>
            capacity b' = capacity b \<and>
            v = take (capacity b - 1) out \<and>
            take (length v) b' = v \<and> b' ! length v = SENTINEL \<and>
            (capacity b \<le> length out \<longrightarrow> length v = capacity b - 1) \<and>
            (length out < capacity b \<longrightarrow> v = out)) \<and>
         (\<exists>b'. Format b (RenderError part) = Inr (b', []) \<and> capacity b' = capacity b)"
proof -
  define v where "v = take (capacity b - 1) out"
  define b' where "b' = v @ SENTINEL # drop (Suc (length v)) b"
  have "length v \<le> capacity b - 1"
    by (simp add: v_def)
  with assms have lv: "length v < length b"
    unfolding capacity_def by linarith
  have s: "StringFormat b 0 (capacity b) (Rendered out) = Inr (b', int (length out))"
    using StringFormat_Rendered [of 0 b "capacity b" out] assms
    by (simp add: capacity_def b'_def v_def)
  have cap: "capacity b' = capacity b"
    using lv by (simp add: b'_def capacity_def)
  have tk: "take (length v) b' = v" by (simp add: b'_def)
  have tm: "b' ! length v = SENTINEL" by (simp add: b'_def nth_append)
  have "take (if capacity b \<le> length out then capacity b - 1 else length out) b' = v"
  proof (cases "capacity b \<le> length out")
    case True
    then have "length v = capacity b - 1" by (simp add: v_def)
    with True tk show ?thesis by simp
  next
    case False
    then have "length v = length out" by (simp add: v_def)
    with False tk show ?thesis by simp
  qed
  then have f: "Format b (Rendered out) = Inr (b', v)"
    by (simp add: Format_def s)
  have e: "\<exists>b'. Format b (RenderError part) = Inr (b', []) \<and> capacity b' = capacity b"
  proof -
    have "length (take (capacity b - 1) part) \<le> capacity b - 1"
      by simp
    with assms have "length (take (capacity b - 1) part) < length b"
      unfolding capacity_def by linarith
    then show ?thesis
      using StringFormat_RenderError [of 0 b "capacity b" part] assms
      by (simp add: Format_def capacity_def)
  qed
  from f cap tk tm e show ?thesis
    by (auto simp: v_def)
qed

theorem Format_view_witness:
  "0 < capacity [0x11, 0x22, 0x33, 0x44 :: 8 word] \<and>
   Format [0x11, 0x22, 0x33, 0x44 :: 8 word] (Rendered [0x31, 0x32, 0x33, 0x34, 0x35]) =
     Inr ([0x31, 0x32, 0x33, 0], [0x31, 0x32, 0x33]) \<and>
   (\<exists>b'. Format [0x11, 0x22, 0x33, 0x44 :: 8 word] (RenderError [0x31]) = Inr (b', []))"
proof -
  have h: "0 < capacity [0x11, 0x22, 0x33, 0x44 :: 8 word]"
    by (simp add: capacity_def)
  have e: "Format [0x11, 0x22, 0x33, 0x44 :: 8 word] (Rendered [0x31, 0x32, 0x33, 0x34, 0x35]) =
     Inr ([0x31, 0x32, 0x33, 0], [0x31, 0x32, 0x33])"
    by (simp add: Format_def StringFormat_def poke_range_def capacity_def SENTINEL_def)
  show ?thesis
    using h e Format_view [OF h, of "[0x31, 0x32, 0x33, 0x34, 0x35]" "[0x31]"] by blast
qed


subsection \<open>The bound invariant\<close>

lemma poke_range_terminated_valid:
  assumes "off + length xs < length b"
  shows "\<exists>b'. poke_range b off (xs @ [SENTINEL]) = Inr b' \<and> valid b' \<and> length b' = length b"
proof -
  have "length (take off b @ xs @ SENTINEL # drop (Suc (off + length xs)) b) = length b"
    using assms by simp
  moreover have "valid (take off b @ xs @ SENTINEL # drop (Suc (off + length xs)) b)"
    by (simp add: valid_iff)
  ultimately show ?thesis
    using poke_range_terminated [OF assms] by simp
qed

lemma CopyString_valid:
  assumes "off + size0 \<le> length b" and "0 < size0"
  shows "\<exists>b'. CopyString b off size0 src = Inr b' \<and> valid b' \<and> length b' = length b"
proof -
  have "length (take (size0 - 1) src) \<le> size0 - 1" by simp
  with assms have "off + length (take (size0 - 1) src) < length b" by linarith
  then show ?thesis
    unfolding CopyString_def by (rule poke_range_terminated_valid)
qed

lemma StringFormat_valid:
  assumes "off + size0 \<le> length b" and "0 < size0"
  shows "\<exists>b' n. StringFormat b off size0 r = Inr (b', n) \<and> valid b' \<and> length b' = length b"
proof -
  have *: "\<exists>b'. poke_range b off (take (size0 - 1) xs @ [SENTINEL]) = Inr b' \<and> valid b' \<and>
               length b' = length b" for xs
  proof -
    have "length (take (size0 - 1) xs) \<le> size0 - 1" by simp
    with assms have "off + length (take (size0 - 1) xs) < length b" by linarith
    then show ?thesis by (rule poke_range_terminated_valid)
  qed
  show ?thesis
  proof (cases r)
    case (Rendered out)
    with * [of out] assms(2) show ?thesis
      by (auto simp: StringFormat_def)
  next
    case (RenderError part)
    with * [of part] assms(2) show ?thesis
      by (auto simp: StringFormat_def)
  qed
qed

lemma valid_length:
  assumes "valid b"
  obtains l where "length_buf b = Inr l" and "l < length b" and "b ! l = SENTINEL"
  using assms by (auto simp: valid_def split: sum.splits)

lemma assign_valid:
  assumes "0 < length b"
  shows "\<exists>b'. assign b v = Inr b' \<and> valid b' \<and> length b' = length b"
  unfolding assign_def using assms by (intro CopyString_valid) (simp_all add: capacity_def)

lemma append_valid:
  assumes "valid b"
  shows "\<exists>b'. append_buf b v = Inr b' \<and> valid b' \<and> length b' = length b"
proof -
  from assms obtain l where l: "length_buf b = Inr l" "l < length b"
    by (rule valid_length)
  have "\<exists>b'. CopyString b l (capacity b - l) v = Inr b' \<and> valid b' \<and> length b' = length b"
    using l(2) by (intro CopyString_valid) (simp_all add: capacity_def)
  then show ?thesis
    by (simp add: append_buf_def l(1))
qed

lemma push_back_valid:
  assumes "valid b"
  shows "\<exists>ok b'. push_back b ch = Inr (ok, b') \<and> valid b' \<and> length b' = length b"
proof -
  from assms obtain l where l: "length_buf b = Inr l" "l < length b"
    by (rule valid_length)
  show ?thesis
  proof (cases "l \<ge> capacity b - 1")
    case True
    with l assms show ?thesis by (auto simp: push_back_def)
  next
    case False
    then have sl: "Suc l < length b" by (simp add: capacity_def)
    then have "valid (b[l := ch, Suc l := SENTINEL])"
      by (simp add: valid_iff set_update_memI)
    with False sl l show ?thesis
      by (auto simp: push_back_def poke_def)
  qed
qed

lemma Truncate_valid:
  assumes "length_buf b = Inr l" and "n \<le> l"
  shows "\<exists>b'. Truncate b n = Inr b' \<and> valid b' \<and> length b' = length b"
proof -
  from assms(1) have "l < length b"
    by (simp add: length_buf_def c_str_def StringLength_Inr_iff)
  with assms(2) have n: "n < length b" by simp
  then have "valid (b[n := SENTINEL])"
    by (simp add: valid_iff set_update_memI)
  with n assms show ?thesis
    by (simp add: Truncate_def poke_def)
qed

lemma SetASCII_valid:
  assumes "0 < length b"
  shows "\<exists>b'. SetASCII b src = Inr b' \<and> valid b' \<and> length b' = length b"
proof -
  define xs :: "'a word list"
    where "xs = take (capacity b - 1) (map ucast (filter IsASCII src))"
  have "length xs \<le> capacity b - 1" by (simp add: xs_def)
  with assms have lx: "length xs < length b"
    unfolding capacity_def by linarith
  then have c: "CopyASCII_n b 0 (capacity b - 1) src = Inr (xs @ drop (length xs) b, length xs)"
    by (simp add: CopyASCII_n_def poke_range_def xs_def Let_def)
  have s: "SetASCII b src = poke (xs @ drop (length xs) b) (length xs) SENTINEL"
    by (simp only: SetASCII_def c sum.case prod.case)
  have "valid ((xs @ drop (length xs) b)[length xs := SENTINEL])"
    using lx by (simp add: valid_iff set_update_memI)
  with lx show ?thesis
    by (simp add: s poke_def)
qed

lemma SetASCII_z_valid:
  assumes "0 < length b" and "SENTINEL \<in> set src"
  shows "\<exists>b'. SetASCII_z b src = Inr b' \<and> valid b' \<and> length b' = length b"
  using assms SetASCII_valid [OF assms(1)]
  by (simp add: SetASCII_z_def StringLength_eq)

lemma CleanASCII_valid:
  assumes "valid b"
  shows "\<exists>b'. CleanASCII b = Inr b' \<and> valid b' \<and> length b' = length b"
proof -
  from assms have z: "SENTINEL \<in> set b" by (simp add: valid_iff)
  have "length (filter IsASCII (content b)) \<le> length (content b)"
    by simp
  then have "Suc (length (filter IsASCII (content b))) \<le> length b"
    using length_content_less [OF z] by linarith
  then have "length (filter IsASCII (content b) @
          SENTINEL # drop (Suc (length (filter IsASCII (content b)))) b) = length b"
    by simp
  then show ?thesis
    using CleanASCII_result [OF assms] by (simp add: valid_iff)
qed

lemma Format_valid:
  assumes "0 < length b"
  shows "\<exists>b' v. Format b r = Inr (b', v) \<and> valid b' \<and> length b' = length b"
proof -
  from StringFormat_valid [of 0 "capacity b" b r] assms
  obtain b' n where "StringFormat b 0 (capacity b) r = Inr (b', n)" "valid b'" "length b' = length b"
    by (auto simp: capacity_def)
  then show ?thesis
    by (simp add: Format_def Let_def)
qed

lemma AppendFormat_valid:
  assumes "valid b"
  shows "\<exists>b'. AppendFormat b r = Inr b' \<and> valid b' \<and> length b' = length b"
proof -
  from assms obtain l where l: "length_buf b = Inr l" "l < length b"
    by (rule valid_length)
  from StringFormat_valid [of l "capacity b - l" b r] l(2)
  obtain b' n where "StringFormat b l (capacity b - l) r = Inr (b', n)" "valid b'"
      "length b' = length b"
    by (auto simp: capacity_def)
  then show ?thesis
    by (simp add: AppendFormat_def l(1))
qed

text \<open>Both constructors give a buffer that satisfies the invariant.\<close>

lemma StaticStringBase_view_valid:
  assumes "0 < length raw"
  shows "\<exists>b. StaticStringBase_view raw v = Inr b \<and> valid b \<and> length b = length raw"
  unfolding StaticStringBase_view_def using assms by (rule assign_valid)

lemma StaticStringBase_default_valid:
  assumes "0 < length raw"
  shows "\<exists>b. StaticStringBase_default raw = Inr b \<and> valid b \<and> length b = length raw"
  using assms by (simp add: StaticStringBase_default_def poke_def valid_iff set_update_memI)

lemma valid_nonempty: "valid b \<Longrightarrow> 0 < length b"
  by (auto simp: valid_iff)

lemma apply_op_valid:
  assumes "valid b" and "op_precondition x b"
  shows "\<exists>b'. apply_op x b = Inr b' \<and> valid b' \<and> length b' = length b"
proof (cases x)
  case (OpAssign v)
  with assign_valid [OF valid_nonempty [OF assms(1)]] show ?thesis by simp
next
  case (OpAppend v)
  with append_valid [OF assms(1)] show ?thesis by simp
next
  case (OpPushBack ch)
  with push_back_valid [OF assms(1), of ch] show ?thesis by auto
next
  case (OpTruncate n)
  with assms(2) obtain l where "length_buf b = Inr l" "n \<le> l"
    by (auto split: sum.splits)
  from Truncate_valid [OF this] OpTruncate show ?thesis by simp
next
  case (OpSetASCII src)
  with SetASCII_valid [OF valid_nonempty [OF assms(1)]] show ?thesis by simp
next
  case (OpSetASCII_z src)
  with assms(2) SetASCII_z_valid [OF valid_nonempty [OF assms(1)]] show ?thesis by simp
next
  case (OpSetASCII_w src)
  with SetASCII_valid [OF valid_nonempty [OF assms(1)]] show ?thesis by simp
next
  case (OpSetASCII_wz src)
  with assms(2) SetASCII_z_valid [OF valid_nonempty [OF assms(1)]] show ?thesis by simp
next
  case OpCleanASCII
  with CleanASCII_valid [OF assms(1)] show ?thesis by simp
next
  case (OpFormat r)
  with Format_valid [OF valid_nonempty [OF assms(1)], of r] show ?thesis by auto
next
  case (OpAppendFormat r)
  with AppendFormat_valid [OF assms(1)] show ?thesis by simp
qed

lemma run_valid:
  "valid b \<Longrightarrow> preconditions_hold ops b \<Longrightarrow>
   \<exists>b'. run ops b = Inr b' \<and> valid b' \<and> length b' = length b"
proof (induction ops arbitrary: b)
  case Nil
  then show ?case by simp
next
  case (Cons x xs)
  from Cons.prems have p: "op_precondition x b" by simp
  from apply_op_valid [OF Cons.prems(1) p]
  obtain b1 where b1: "apply_op x b = Inr b1" "valid b1" "length b1 = length b"
    by blast
  with Cons.prems(2) have "preconditions_hold xs b1" by simp
  from Cons.IH [OF b1(2) this] b1 show ?case by simp
qed

lemma preconditions_hold_take:
  "preconditions_hold ops b \<Longrightarrow> preconditions_hold (take k ops) b"
proof (induction ops arbitrary: b k)
  case Nil
  then show ?case by simp
next
  case (Cons x xs)
  show ?case
  proof (cases k)
    case 0
    then show ?thesis by simp
  next
    case (Suc j)
    with Cons show ?thesis
      by (auto split: sum.splits)
  qed
qed

text \<open>
  C1: for every buffer that satisfies the invariant (of any capacity) and every sequence of
  calls of \<open>assign\<close>, \<open>append\<close>, \<open>push_back\<close>, \<open>Truncate\<close>, \<open>SetASCII\<close>, \<open>CleanASCII\<close>,
  \<open>Format\<close> and \<open>AppendFormat\<close> whose callers keep their obligations (\<open>Truncate\<close> never
  beyond the current length, a terminated source where only its start is given), after each
  call (after the first \<open>k\<close> calls, for every \<open>k\<close>) no access has left the array, the
  capacity is the same, the length is at most \<open>capacity - 1\<close> and the element at index
  length is the terminator.
\<close>

theorem bound_invariant:
  assumes "valid b" and "preconditions_hold ops b"
  shows "\<exists>b' l. run (take k ops) b = Inr b' \<and> capacity b' = capacity b \<and>
           length_buf b' = Inr l \<and> l \<le> capacity b - 1 \<and> b' ! l = SENTINEL"
proof -
  from run_valid [OF assms(1) preconditions_hold_take [OF assms(2)]]
  obtain b' where b': "run (take k ops) b = Inr b'" "valid b'" "length b' = length b"
    by blast
  from b'(2) obtain l where "length_buf b' = Inr l" "l \<le> capacity b' - 1" "b' ! l = SENTINEL"
    by (auto simp: valid_def split: sum.splits)
  with b' show ?thesis
    by (simp add: capacity_def)
qed

theorem bound_invariant_witness:
  "valid [0, 0x55, 0x55, 0x55 :: 8 word] \<and>
   preconditions_hold
     [OpAssign [0x61, 0x62, 0x63, 0x64, 0x65], OpTruncate 2, OpPushBack 0x7A,
      OpAppendFormat (Rendered [0x31, 0x32, 0x33])] [0, 0x55, 0x55, 0x55 :: 8 word] \<and>
   (\<exists>b' l. run (take 2
       [OpAssign [0x61, 0x62, 0x63, 0x64, 0x65], OpTruncate 2, OpPushBack 0x7A,
        OpAppendFormat (Rendered [0x31, 0x32, 0x33])]) [0, 0x55, 0x55, 0x55 :: 8 word] = Inr b' \<and>
      capacity b' = capacity [0, 0x55, 0x55, 0x55 :: 8 word] \<and> length_buf b' = Inr l \<and>
      l \<le> capacity [0, 0x55, 0x55, 0x55 :: 8 word] - 1 \<and> b' ! l = SENTINEL)"
proof -
  have h1: "valid [0, 0x55, 0x55, 0x55 :: 8 word]"
    by (simp add: valid_iff SENTINEL_def)
  have h2: "preconditions_hold
     [OpAssign [0x61, 0x62, 0x63, 0x64, 0x65], OpTruncate 2, OpPushBack 0x7A,
      OpAppendFormat (Rendered [0x31, 0x32, 0x33])] [0, 0x55, 0x55, 0x55 :: 8 word]"
    by (simp add: assign_def CopyString_def poke_range_def capacity_def Truncate_def
        length_buf_def c_str_def poke_def push_back_def SENTINEL_def split: sum.splits)
  show ?thesis
    using h1 h2 bound_invariant [OF h1 h2, of 2] by blast
qed


end
